theory Spec2Isabelle
  imports Main "HOL-Library.Sublist" "HOL-Library.AList" "HOL-Library.FSet"
begin

section \<open>DocSnap: crawler and book assembler\<close>

text \<open>
  A shallow embedding of \<^verbatim>\<open>docsnap.py\<close>. Strings are lists of characters, a character
  being a code point below 256 (Latin-1, the first 256 code points of Python's \<^verbatim>\<open>str\<close>);
  Python's unbounded integers are \<^typ>\<open>int\<close>, counters that start at one are \<^typ>\<open>nat\<close>.
  The functions of \<^verbatim>\<open>urllib.parse\<close>, \<^verbatim>\<open>requests\<close> and \<^verbatim>\<open>bs4\<close> that build or print
  a document are not part of the program: they are fields of the record \<open>lib\<close>, and
  every theorem holds for each value of that record.
\<close>

subsection \<open>Strings\<close>

definition is_space :: "char \<Rightarrow> bool" where
  \<comment> \<open>the characters that \<^verbatim>\<open>str.strip\<close> removes, those for which \<^verbatim>\<open>str.isspace\<close> holds: among
     the code points below 256 these are U+0009 to U+000D, U+001C to U+0020, U+0085 and U+00A0\<close>
  "is_space c =
     (let k = (of_char c :: nat)
      in (9 \<le> k \<and> k \<le> 13) \<or> (28 \<le> k \<and> k \<le> 32) \<or> k = 133 \<or> k = 160)"

definition strip :: "string \<Rightarrow> string" where
  "strip s = rev (dropWhile is_space (rev (dropWhile is_space s)))"

definition ascii_lower :: "char \<Rightarrow> char" where
  "ascii_lower c = (let k = (of_char c :: nat) in if 65 \<le> k \<and> k \<le> 90 then char_of (k + 32) else c)"

definition startswith :: "string \<Rightarrow> string \<Rightarrow> bool" where
  "startswith s p = prefix p s"

definition digit_char :: "nat \<Rightarrow> char" where
  "digit_char d = char_of (48 + d)"

fun str_nat :: "nat \<Rightarrow> string" where
  \<comment> \<open>\<^verbatim>\<open>f"{i}"\<close> for a non-negative integer\<close>
  "str_nat n = (if n < 10 then [digit_char n] else str_nat (n div 10) @ [digit_char (n mod 10)])"

declare str_nat.simps [simp del]

subsection \<open>Parsed documents\<close>

text \<open>
  A \<^verbatim>\<open>bs4\<close> tree: a string, or a tag with its name, its attribute dictionary (in
  insertion order) and its children. The \<^verbatim>\<open>BeautifulSoup\<close> object is itself a tag,
  named \<^verbatim>\<open>[document]\<close>. A reference to an element of a soup is its path, the child
  indices from the root; the soup is the store that in-place edits update.
\<close>

datatype node = Text string | Tag string "(string \<times> string) list" "node list"

type_synonym path = "nat list"

fun strings :: "node \<Rightarrow> string list" where
  "strings (Text s) = [s]"
| "strings (Tag n a cs) = concat (map strings cs)"

definition get_text :: "node \<Rightarrow> string" where
  "get_text t = concat (strings t)"

definition get_text_strip :: "node \<Rightarrow> string" where
  \<comment> \<open>\<^verbatim>\<open>get_text(strip=True)\<close>: each string stripped, the empty ones dropped\<close>
  "get_text_strip t = concat (filter (\<lambda>s. s \<noteq> []) (map strip (strings t)))"

fun located_from :: "path \<Rightarrow> nat \<Rightarrow> node list \<Rightarrow> (path \<times> node) list"
  and located_at :: "path \<Rightarrow> node \<Rightarrow> (path \<times> node) list" where
  "located_from p k [] = []"
| "located_from p k (c # cs) = (p @ [k], c) # located_at (p @ [k]) c @ located_from p (Suc k) cs"
| "located_at p (Text s) = []"
| "located_at p (Tag n a cs) = located_from p 0 cs"

definition located :: "node \<Rightarrow> (path \<times> node) list" where
  \<comment> \<open>the descendants of a node in document order, each with its path\<close>
  "located t = located_at [] t"

definition descendants :: "node \<Rightarrow> node list" where
  "descendants t = map snd (located t)"

fun subtree :: "node \<Rightarrow> path \<Rightarrow> node option" where
  "subtree t [] = Some t"
| "subtree (Text s) (k # p) = None"
| "subtree (Tag n a cs) (k # p) = (if k < length cs then subtree (cs ! k) p else None)"

fun replace_at :: "node \<Rightarrow> path \<Rightarrow> node \<Rightarrow> node" where
  "replace_at t [] u = u"
| "replace_at (Text s) (k # p) u = Text s"
| "replace_at (Tag n a cs) (k # p) u =
     (if k < length cs then Tag n a (cs[k := replace_at (cs ! k) p u]) else Tag n a cs)"

fun tag_named :: "(string \<Rightarrow> bool) \<Rightarrow> node \<Rightarrow> bool" where
  "tag_named P (Text s) = False"
| "tag_named P (Tag n a cs) = P n"

fun get_attr :: "node \<Rightarrow> string \<Rightarrow> string option" where
  \<comment> \<open>\<^verbatim>\<open>tag.get(key)\<close>\<close>
  "get_attr (Text s) k = None"
| "get_attr (Tag n a cs) k = map_of a k"

definition find_all :: "(node \<Rightarrow> bool) \<Rightarrow> node \<Rightarrow> node list" where
  "find_all P t = filter P (descendants t)"

definition find_first :: "(node \<Rightarrow> bool) \<Rightarrow> node \<Rightarrow> node option" where
  \<comment> \<open>\<^verbatim>\<open>soup.find(...)\<close>: the first match in document order, or \<^verbatim>\<open>None\<close>\<close>
  "find_first P t = List.find P (descendants t)"

definition select_one :: "(node \<Rightarrow> bool) \<Rightarrow> node \<Rightarrow> (path \<times> node) option" where
  \<comment> \<open>the first descendant that matches, as a reference: its path and the element there\<close>
  "select_one P t = List.find (\<lambda>(p, d). P d) (located t)"

definition is_tag :: "string \<Rightarrow> node \<Rightarrow> bool" where
  "is_tag x d = tag_named (\<lambda>n. n = x) d"

definition has_attr :: "string \<Rightarrow> node \<Rightarrow> bool" where
  "has_attr k d = (get_attr d k \<noteq> None)"

definition attr_contains :: "string \<Rightarrow> string \<Rightarrow> node \<Rightarrow> bool" where
  \<comment> \<open>the CSS attribute selector \<^verbatim>\<open>[k*='v']\<close>\<close>
  "attr_contains k v d = (case get_attr d k of None \<Rightarrow> False | Some w \<Rightarrow> sublist v w)"

fun tokens_acc :: "string \<Rightarrow> string \<Rightarrow> string list" where
  "tokens_acc cur [] = (if cur = [] then [] else [cur])"
| "tokens_acc cur (c # cs) =
     (if is_space c then (if cur = [] then tokens_acc [] cs else cur # tokens_acc [] cs)
      else tokens_acc (cur @ [c]) cs)"

definition has_class :: "string \<Rightarrow> node \<Rightarrow> bool" where
  \<comment> \<open>the CSS class selector \<^verbatim>\<open>.cls\<close>: one of the whitespace-separated class names\<close>
  "has_class cls d = (case get_attr d ''class'' of None \<Rightarrow> False | Some w \<Rightarrow> cls \<in> set (tokens_acc [] w))"

subsection \<open>The external libraries\<close>

datatype error = ValueError | IndexError

datatype response = RequestFailed | Response int string

text \<open>
  \<open>urlparse\<close> gives the scheme and the network location of a URL, \<open>urljoin\<close> resolves a
  reference against a base; both raise \<^verbatim>\<open>ValueError\<close> on some inputs, which is the
  value \<open>None\<close>. \<open>session_get\<close> is \<^verbatim>\<open>SESSION.get(url, timeout=20)\<close>: an exception, or
  a status code with the text of the response. \<open>parse_html\<close> is
  \<^verbatim>\<open>BeautifulSoup(text, "html.parser")\<close> and \<open>to_html\<close> is \<^verbatim>\<open>str\<close> on a tag.
\<close>

record lib =
  urlparse :: "string \<Rightarrow> (string \<times> string) option"
  urljoin :: "string \<Rightarrow> string \<Rightarrow> string option"
  session_get :: "string \<Rightarrow> response"
  parse_html :: "string \<Rightarrow> node"
  to_html :: "node \<Rightarrow> string"

subsection \<open>Helper utilities\<close>

definition is_same_domain :: "lib \<Rightarrow> string \<Rightarrow> string \<Rightarrow> bool" where
  "is_same_domain L start_netloc link =
     (case urlparse L link of
        None \<Rightarrow> False
      | Some (scheme, netloc) \<Rightarrow> if netloc = [] then True else netloc = start_netloc)"

definition normalize_link :: "lib \<Rightarrow> string \<Rightarrow> string \<Rightarrow> error + string option" where
  "normalize_link L base href =
     (if href = [] then Inr None
      else
        let href1 = takeWhile (\<lambda>c. c \<noteq> CHR ''#'') href;
            href2 = strip href1
        in if startswith href2 ''mailto:'' \<or> startswith href2 ''tel:'' then Inr None
           else (case urljoin L base href2 of None \<Rightarrow> Inl ValueError | Some u \<Rightarrow> Inr (Some u)))"

definition selectors :: "(node \<Rightarrow> bool) list" where
  "selectors =
     [is_tag ''main'',
      is_tag ''article'',
      (\<lambda>d. is_tag ''div'' d \<and> get_attr d ''role'' = Some ''main''),
      (\<lambda>d. is_tag ''div'' d \<and> attr_contains ''class'' ''content'' d),
      (\<lambda>d. is_tag ''div'' d \<and> attr_contains ''class'' ''main-content'' d),
      (\<lambda>d. is_tag ''div'' d \<and> attr_contains ''id'' ''content'' d)]"

fun try_selectors :: "(node \<Rightarrow> bool) list \<Rightarrow> node \<Rightarrow> (path \<times> node) option" where
  "try_selectors [] soup = None"
| "try_selectors (sel # sels) soup =
     (case select_one sel soup of
        None \<Rightarrow> try_selectors sels soup
      | Some (p, tag) \<Rightarrow> if get_text_strip tag \<noteq> [] then Some (p, tag) else try_selectors sels soup)"

definition extract_main_html :: "node \<Rightarrow> (path \<times> node) option" where
  \<comment> \<open>the result is a reference into the soup, or \<^verbatim>\<open>None\<close>\<close>
  "extract_main_html soup =
     (case try_selectors selectors soup of
        Some r \<Rightarrow> Some r
      | None \<Rightarrow>
          (case select_one (is_tag ''body'') soup of
             Some r \<Rightarrow> Some r
           | None \<Rightarrow> Some ([], soup)))"

fun decompose_all :: "(node \<Rightarrow> bool) \<Rightarrow> node \<Rightarrow> node" where
  \<comment> \<open>\<^verbatim>\<open>for t in fragment.select(sel): t.decompose()\<close>\<close>
  "decompose_all P (Text s) = Text s"
| "decompose_all P (Tag n a cs) = Tag n a (map (decompose_all P) (filter (\<lambda>c. \<not> P c) cs))"

definition junk_tags :: "string list" where
  "junk_tags = [''script'', ''style'', ''nav'', ''form'', ''footer'', ''header'', ''noscript'']"

definition junk_classes :: "string list" where
  "junk_classes = [''edit-on-github'', ''sidebar'', ''toc'', ''breadcrumbs'', ''page-nav'', ''nav'',
     ''site-footer'', ''site-header'']"

definition clean_html_fragment :: "node \<Rightarrow> node" where
  \<comment> \<open>the last loop of the source selects no string and its body is \<^verbatim>\<open>pass\<close>\<close>
  "clean_html_fragment fragment =
     foldl (\<lambda>f cls. decompose_all (has_class cls) f)
       (decompose_all (tag_named (\<lambda>n. n \<in> set junk_tags)) fragment) junk_classes"

subsection \<open>Crawler\<close>

text \<open>
  The state of the loop of \<^verbatim>\<open>crawl_docs\<close>: its three local variables, and \<open>requests\<close>,
  the URLs \<^verbatim>\<open>SESSION.get\<close> was called with, in order (the only effect of the loop
  outside its variables that a claim speaks of; the progress bar, \<^verbatim>\<open>print\<close> and
  \<^verbatim>\<open>time.sleep(delay)\<close> are left out). \<open>pages\<close> is the \<^verbatim>\<open>OrderedDict\<close>, an
  association list in insertion order.
\<close>

record crawl_state =
  to_visit :: "string list"
  visited :: "string fset"
  pages :: "(string \<times> string \<times> string) list"
  requests :: "string list"

record crawl_ctx =
  base_netloc :: string
  scheme_and_netloc :: string
  max_pages :: int
  allowed_path_prefix :: "string option"

definition media_exts :: "string list" where
  "media_exts = [''jpg'', ''jpeg'', ''png'', ''gif'', ''svg'', ''pdf'', ''zip'', ''tar'', ''gz'', ''mp4'', ''webm'']"

definition is_media_file :: "string \<Rightarrow> bool" where
  \<comment> \<open>the \<^verbatim>\<open>re.search\<close> of the source, \<^verbatim>\<open>re.I\<close> on ASCII letters; \<^verbatim>\<open>$\<close> also matches
     before a newline that ends the string\<close>
  "is_media_file href =
     (let h = map ascii_lower href;
          h' = (if h \<noteq> [] \<and> last h = CHR 0x0A then butlast h else h)
      in \<exists>e \<in> set media_exts. suffix (CHR ''.'' # e) h \<or> suffix (CHR ''.'' # e) h')"

definition link_hrefs :: "node \<Rightarrow> string list" where
  \<comment> \<open>\<^verbatim>\<open>a['href']\<close> for each \<^verbatim>\<open>a\<close> of \<^verbatim>\<open>soup.find_all("a", href=True)\<close>\<close>
  "link_hrefs soup = List.map_filter (\<lambda>d. get_attr d ''href'') (find_all (is_tag ''a'') soup)"

fun enqueue_links ::
  "lib \<Rightarrow> crawl_ctx \<Rightarrow> string \<Rightarrow> string fset \<Rightarrow> string list \<Rightarrow> string list \<Rightarrow> error + string list" where
  "enqueue_links L c url vis [] tv = Inr tv"
| "enqueue_links L c url vis (raw # hrefs) tv =
     (case normalize_link L url raw of
        Inl e \<Rightarrow> Inl e
      | Inr None \<Rightarrow> enqueue_links L c url vis hrefs tv
      | Inr (Some href) \<Rightarrow>
          if href = [] then enqueue_links L c url vis hrefs tv
          else if \<not> is_same_domain L (base_netloc c) href then enqueue_links L c url vis hrefs tv
          else if is_media_file href then enqueue_links L c url vis hrefs tv
          else if href |\<notin>| vis \<and> href \<notin> set tv \<and> startswith href (scheme_and_netloc c)
            then enqueue_links L c url vis hrefs (tv @ [href])
          else enqueue_links L c url vis hrefs tv)"

definition mark_visited :: "string \<Rightarrow> crawl_state \<Rightarrow> crawl_state" where
  "mark_visited url s = s\<lparr>visited := finsert url (visited s)\<rparr>"

definition prefix_rejects :: "string option \<Rightarrow> string \<Rightarrow> bool" where
  \<comment> \<open>\<^verbatim>\<open>allowed_path_prefix and not url.startswith(allowed_path_prefix)\<close>\<close>
  "prefix_rejects pre url = (case pre of None \<Rightarrow> False | Some p \<Rightarrow> p \<noteq> [] \<and> \<not> startswith url p)"

definition crawl_iteration :: "lib \<Rightarrow> crawl_ctx \<Rightarrow> crawl_state \<Rightarrow> error + crawl_state" where
  \<comment> \<open>one run of the body of the \<^verbatim>\<open>while\<close> loop\<close>
  "crawl_iteration L c s =
     (case to_visit s of
        [] \<Rightarrow> Inl IndexError
      | url # rest \<Rightarrow>
          let s1 = s\<lparr>to_visit := rest\<rparr> in
          if url |\<in>| visited s1 then Inr s1
          else if \<not> is_same_domain L (base_netloc c) url then Inr (mark_visited url s1)
          else if prefix_rejects (allowed_path_prefix c) url then Inr (mark_visited url s1)
          else
            let s2 = s1\<lparr>requests := requests s1 @ [url]\<rparr> in
            (case session_get L url of
               RequestFailed \<Rightarrow> Inr (mark_visited url s2)
             | Response status_code text \<Rightarrow>
                 if status_code \<noteq> 200 then Inr (mark_visited url s2)
                 else
                   let soup = parse_html L text;
                       title = (case find_first (is_tag ''title'') soup of
                                  Some title_tag \<Rightarrow> get_text_strip title_tag
                                | None \<Rightarrow> url)
                   in (case extract_main_html soup of
                         None \<Rightarrow> Inr (mark_visited url s2)
                       | Some (p, tag) \<Rightarrow>
                           let main = clean_html_fragment tag;
                               soup' = replace_at soup p main;
                               s3 = mark_visited url
                                      (s2\<lparr>pages := AList.update url (title, to_html L main) (pages s2)\<rparr>)
                           in (case enqueue_links L c url (visited s3) (link_hrefs soup') (to_visit s3) of
                                 Inl e \<Rightarrow> Inl e
                               | Inr tv \<Rightarrow> Inr (s3\<lparr>to_visit := tv\<rparr>)))))"

definition loop_cond :: "crawl_ctx \<Rightarrow> crawl_state \<Rightarrow> bool" where
  \<comment> \<open>\<^verbatim>\<open>to_visit and len(visited) < max_pages\<close>\<close>
  "loop_cond c s = (to_visit s \<noteq> [] \<and> int (fcard (visited s)) < max_pages c)"

function crawl_loop :: "lib \<Rightarrow> crawl_ctx \<Rightarrow> crawl_state \<Rightarrow> error + crawl_state" where
  "crawl_loop L c s =
     (if loop_cond c s
      then (case crawl_iteration L c s of Inl e \<Rightarrow> Inl e | Inr s' \<Rightarrow> crawl_loop L c s')
      else Inr s)"
  by pat_completeness auto

lemma enqueue_links_grows:
  "enqueue_links L c url vis hrefs tv = Inr tv' \<Longrightarrow> length tv \<le> length tv'"
  by (induction hrefs arbitrary: tv) (auto split: sum.splits option.splits if_splits, fastforce+)

lemma crawl_iteration_measure:
  assumes "loop_cond c s" and "crawl_iteration L c s = Inr s'"
  shows "(visited s' = visited s \<and> length (to_visit s') < length (to_visit s))
       \<or> (fcard (visited s') = Suc (fcard (visited s)))"
  using assms
  by (auto simp: crawl_iteration_def loop_cond_def mark_visited_def Let_def fcard_finsert_disjoint
           split: list.splits if_splits response.splits option.splits sum.splits prod.splits)

termination crawl_loop
proof (relation "inv_image (less_than <*lex*> less_than)
         (\<lambda>(L :: lib, c :: crawl_ctx, s :: crawl_state).
            (nat (max_pages c - int (fcard (visited s))), length (to_visit s)))")
  show "wf (inv_image (less_than <*lex*> less_than)
         (\<lambda>(L :: lib, c :: crawl_ctx, s :: crawl_state).
            (nat (max_pages c - int (fcard (visited s))), length (to_visit s))))"
    by (intro wf_inv_image wf_lex_prod wf_less_than)
next
  fix L c s s'
  assume a: "loop_cond c s" "crawl_iteration L c s = Inr s'"
  from crawl_iteration_measure [OF a]
  show "((L, c, s'), (L, c, s)) \<in> inv_image (less_than <*lex*> less_than)
         (\<lambda>(L :: lib, c :: crawl_ctx, s :: crawl_state).
            (nat (max_pages c - int (fcard (visited s))), length (to_visit s)))"
    using a(1) by (auto simp: loop_cond_def)
qed

declare crawl_loop.simps [simp del]

definition initial_state :: "string \<Rightarrow> crawl_state" where
  "initial_state start_url = \<lparr>to_visit = [start_url], visited = {||}, pages = [], requests = []\<rparr>"

definition crawl_run :: "lib \<Rightarrow> string \<Rightarrow> int \<Rightarrow> string option \<Rightarrow> error + crawl_state" where
  \<comment> \<open>\<^verbatim>\<open>crawl_docs\<close> up to the end of its loop: the final values of all its variables\<close>
  "crawl_run L start_url maxp pre =
     (case urlparse L start_url of
        None \<Rightarrow> Inl ValueError
      | Some (scheme, netloc) \<Rightarrow>
          crawl_loop L
            \<lparr>base_netloc = netloc, scheme_and_netloc = scheme @ ''://'' @ netloc,
             max_pages = maxp, allowed_path_prefix = pre\<rparr>
            (initial_state start_url))"

definition crawl_docs ::
  "lib \<Rightarrow> string \<Rightarrow> int \<Rightarrow> string option \<Rightarrow> error + (string \<times> string \<times> string) list" where
  "crawl_docs L start_url maxp pre = map_sum id pages (crawl_run L start_url maxp pre)"

text \<open>
  The values of the variables of \<^verbatim>\<open>crawl_docs\<close> each time the condition of its loop is
  evaluated: the initial ones, and those that a run of the body that did not raise leaves.
\<close>

inductive reachable :: "lib \<Rightarrow> crawl_ctx \<Rightarrow> string \<Rightarrow> crawl_state \<Rightarrow> bool"
  for L :: lib and c :: crawl_ctx and start_url :: string where
  init: "reachable L c start_url (initial_state start_url)"
| step: "reachable L c start_url s \<Longrightarrow> loop_cond c s \<Longrightarrow> crawl_iteration L c s = Inr s'
         \<Longrightarrow> reachable L c start_url s'"

definition fetched_ok :: "lib \<Rightarrow> string \<Rightarrow> bool" where
  \<comment> \<open>\<^verbatim>\<open>SESSION.get(url)\<close> returns, and with the status 200\<close>
  "fetched_ok L url =
     (case session_get L url of RequestFailed \<Rightarrow> False | Response status_code text \<Rightarrow> status_code = 200)"

subsection \<open>Book assembler\<close>

definition heading_re :: "char list \<Rightarrow> node \<Rightarrow> bool" where
  \<comment> \<open>a tag whose name the pattern \<^verbatim>\<open>^h[...]$\<close> finds\<close>
  "heading_re ds d =
     tag_named (\<lambda>n. \<exists>x \<in> set ds. n = [CHR ''h'', x] \<or> n = [CHR ''h'', x, CHR 0x0A]) d"

definition is_heading :: "node \<Rightarrow> bool" where
  "is_heading d = heading_re ''123456'' d"

definition is_chapter_heading :: "node \<Rightarrow> bool" where
  "is_chapter_heading d = heading_re ''123'' d"

definition safe_char :: "char \<Rightarrow> bool" where
  \<comment> \<open>the class \<^verbatim>\<open>[a-zA-Z0-9_-]\<close>\<close>
  "safe_char c =
     (let k = (of_char c :: nat)
      in (97 \<le> k \<and> k \<le> 122) \<or> (65 \<le> k \<and> k \<le> 90) \<or> (48 \<le> k \<and> k \<le> 57) \<or> c = CHR ''_'' \<or> c = CHR ''-'')"

primrec sub_unsafe :: "bool \<Rightarrow> string \<Rightarrow> string" where
  \<comment> \<open>\<^verbatim>\<open>re.sub(r'[^a-zA-Z0-9_-]+', '-', text)\<close>; the flag says that a run is being replaced\<close>
  "sub_unsafe in_run [] = []"
| "sub_unsafe in_run (c # cs) =
     (if safe_char c then c # sub_unsafe False cs
      else if in_run then sub_unsafe True cs
      else CHR ''-'' # sub_unsafe True cs)"

definition safe_id :: "string \<Rightarrow> string" where
  "safe_id text = take 60 (sub_unsafe False text)"

definition heading_id :: "nat \<Rightarrow> string \<Rightarrow> string" where
  \<comment> \<open>\<^verbatim>\<open>f"p{i}-{safe_id}"\<close>\<close>
  "heading_id i text = ''p'' @ str_nat i @ ''-'' @ safe_id text"

definition lacks_id :: "node \<Rightarrow> bool" where
  \<comment> \<open>\<^verbatim>\<open>not h.get('id')\<close>\<close>
  "lacks_id h = (case get_attr h ''id'' of None \<Rightarrow> True | Some v \<Rightarrow> v = [])"

fun ensure_ids :: "nat \<Rightarrow> node \<Rightarrow> node" where
  "ensure_ids i (Text s) = Text s"
| "ensure_ids i (Tag n a cs) =
     Tag n
       (if is_heading (Tag n a cs) \<and> lacks_id (Tag n a cs)
        then AList.update ''id'' (heading_id i (get_text (Tag n a cs))) a else a)
       (map (ensure_ids i) cs)"

fun ensure_heading_ids :: "nat \<Rightarrow> node \<Rightarrow> node" where
  \<comment> \<open>the loop over \<^verbatim>\<open>soup.find_all(re.compile("^h[1-6]$"))\<close>: every descendant of the
     soup that is a heading; an id set on one heading changes no other heading's text\<close>
  "ensure_heading_ids i (Text s) = Text s"
| "ensure_heading_ids i (Tag n a cs) = Tag n a (map (ensure_ids i) cs)"

record book_chapter =
  chapter_id :: string
  chapter_title_text :: string
  source_url :: string
  chapter_soup :: node
  chapter_html :: string

definition nl :: string where
  "nl = [CHR 0x0A]"

definition build_chapter :: "lib \<Rightarrow> nat \<times> string \<times> string \<times> string \<Rightarrow> book_chapter" where
  \<comment> \<open>one run of the first loop of \<^verbatim>\<open>build_book_html\<close>, for the \<open>i\<close>-th page\<close>
  \<open>build_chapter L = (\<lambda>(i, url, title, html_content).
     let soup = ensure_heading_ids i (parse_html L html_content);
         title_text = (case find_first is_chapter_heading soup of
                         Some chapter_title \<Rightarrow> get_text_strip chapter_title
                       | None \<Rightarrow> title);
         cid = ''chapter-'' @ str_nat i
     in \<lparr>chapter_id = cid,
         chapter_title_text = title_text,
         source_url = url,
         chapter_soup = soup,
         chapter_html =
           ''<section class="chapter" id="'' @ cid @ ''">'' @ nl @
           ''<h1>'' @ title_text @ ''</h1>'' @ nl @
           ''<div class="source-url">Source: <a href="'' @ url @ ''">'' @ url @ ''</a></div>'' @ nl @
           to_html L soup @ ''</section>'' @ nl @
           ''<div style="page-break-after: always;"></div>''\<rparr>)\<close>

definition chapters :: "lib \<Rightarrow> (string \<times> string \<times> string) list \<Rightarrow> book_chapter list" where
  \<comment> \<open>\<^verbatim>\<open>enumerate(pages.items(), start=1)\<close>\<close>
  "chapters L pgs = map (build_chapter L) (List.enumerate 1 pgs)"











subsection \<open>A small site, for concrete runs\<close>

text \<open>
  Three URLs on one host: the start page links to \<open>/b\<close> (which answers 404), to \<open>/c\<close>,
  to the same host under \<^verbatim>\<open>http\<close> and to a \<^verbatim>\<open>mailto:\<close> address. Every \<^verbatim>\<open>href\<close> of
  the site is absolute, so joining it to a base gives the \<^verbatim>\<open>href\<close> itself.
\<close>

definition soup_a :: node where
  "soup_a =
     Tag ''[document]'' []
       [Tag ''html'' []
          [Tag ''head'' [] [Tag ''title'' [] [Text ''Home'']],
           Tag ''body'' []
             [Tag ''main'' []
                [Tag ''h2'' [] [Text ''Overview''],
                 Tag ''nav'' [] [Tag ''a'' [(''href'', ''https://docs.test/x'')] [Text ''x'']],
                 Tag ''a'' [(''href'', ''https://docs.test/b#top'')] [Text ''b''],
                 Tag ''a'' [(''href'', ''http://docs.test/d'')] [Text ''d''],
                 Tag ''a'' [(''href'', ''mailto:dev@docs.test'')] [Text ''mail''],
                 Tag ''a'' [(''href'', ''https://docs.test/c'')] [Text ''c'']]]]]"

definition soup_c :: node where
  "soup_c =
     Tag ''[document]'' []
       [Tag ''h1'' [(''id'', ''intro'')] [Text ''Intro''],
        Tag ''a'' [(''href'', ''https://docs.test/'')] [Text ''home'']]"

definition soup_overview :: node where
  "soup_overview = Tag ''[document]'' [] [Tag ''h2'' [] [Text ''Overview'']]"

definition soup_twice :: node where
  "soup_twice =
     Tag ''[document]'' [] [Tag ''h2'' [] [Text ''Setup''], Tag ''h3'' [(''id'', [])] [Text ''Setup'']]"

definition demo_lib :: lib where
  "demo_lib =
     \<lparr>urlparse = (\<lambda>u.
         if startswith u ''https://docs.test'' then Some (''https'', ''docs.test'')
         else if startswith u ''http://docs.test'' then Some (''http'', ''docs.test'')
         else if startswith u ''mailto:'' then Some (''mailto'', [])
         else None),
      urljoin = (\<lambda>base href. Some href),
      session_get = (\<lambda>u.
         if u = ''https://docs.test/'' then Response 200 ''page a''
         else if u = ''https://docs.test/b'' then Response 404 []
         else if u = ''https://docs.test/c'' then Response 200 ''page c''
         else RequestFailed),
      parse_html = (\<lambda>text.
         if text = ''page a'' then soup_a
         else if text = ''page c'' then soup_c
         else if text = ''overview'' then soup_overview
         else if text = ''twice'' then soup_twice
         else Tag ''[document]'' [] []),
      to_html = (\<lambda>d. if d = soup_c then ''page c'' else ''overview'')\<rparr>"

definition overview_pages :: "(string \<times> string \<times> string) list" where
  "overview_pages =
     [(''https://docs.test/'', ''Home'', ''overview''), (''https://docs.test/c'', ''C'', ''overview'')]"



definition demo_ctx :: crawl_ctx where
  "demo_ctx =
     \<lparr>base_netloc = ''docs.test'', scheme_and_netloc = ''https://docs.test'',
      max_pages = 10, allowed_path_prefix = None\<rparr>"

definition demo_start :: string where
  "demo_start = ''https://docs.test/''"

text \<open>The states of the crawl of the small site, after one, two and three runs of the loop body.\<close>

definition demo_state_1 :: crawl_state where
  "demo_state_1 =
     \<lparr>to_visit = [''https://docs.test/b'', ''https://docs.test/c''],
      visited = {|''https://docs.test/''|},
      pages = [(''https://docs.test/'', ''Home'', ''overview'')],
      requests = [''https://docs.test/'']\<rparr>"

definition demo_state_2 :: crawl_state where
  "demo_state_2 =
     \<lparr>to_visit = [''https://docs.test/c''],
      visited = {|''https://docs.test/'', ''https://docs.test/b''|},
      pages = [(''https://docs.test/'', ''Home'', ''overview'')],
      requests = [''https://docs.test/'', ''https://docs.test/b'']\<rparr>"

definition demo_state_3 :: crawl_state where
  "demo_state_3 =
     \<lparr>to_visit = [],
      visited = {|''https://docs.test/'', ''https://docs.test/b'', ''https://docs.test/c''|},
      pages = [(''https://docs.test/'', ''Home'', ''overview''),
               (''https://docs.test/c'', ''https://docs.test/c'', ''page c'')],
      requests = [''https://docs.test/'', ''https://docs.test/b'', ''https://docs.test/c'']\<rparr>"

section \<open>Properties\<close>

subsection \<open>Decimal numerals and identifiers\<close>

lemma str_nat_nonempty: "str_nat n \<noteq> []"
  by (subst str_nat.simps) simp

lemma digit_char_inj: "a < 10 \<Longrightarrow> b < 10 \<Longrightarrow> digit_char a = digit_char b \<Longrightarrow> a = b"
proof -
  assume a: "a < 10" "b < 10" "digit_char a = digit_char b"
  then have "(of_char (digit_char a) :: nat) = of_char (digit_char b)" by simp
  with a show ?thesis by (simp add: digit_char_def)
qed

lemma str_nat_inj: "str_nat m = str_nat n \<Longrightarrow> m = n"
proof (induction m arbitrary: n rule: str_nat.induct)
  case (1 m)
  show ?case
  proof (cases "m < 10")
    case True
    show ?thesis
    proof (cases "n < 10")
      case True
      with \<open>m < 10\<close> "1.prems" show ?thesis
        by (simp add: str_nat.simps [of m] str_nat.simps [of n] digit_char_inj)
    next
      case False
      with \<open>m < 10\<close> "1.prems" str_nat_nonempty [of "n div 10"] show ?thesis
        by (simp add: str_nat.simps [of m] str_nat.simps [of n] Cons_eq_append_conv)
    qed
  next
    case False
    show ?thesis
    proof (cases "n < 10")
      case True
      with False "1.prems" str_nat_nonempty [of "m div 10"] show ?thesis
        by (simp add: str_nat.simps [of m] str_nat.simps [of n] append_eq_Cons_conv)
    next
      case nf: False
      with False "1.prems" have e: "str_nat (m div 10) = str_nat (n div 10)"
        and d: "digit_char (m mod 10) = digit_char (n mod 10)"
        by (simp_all add: str_nat.simps [of m] str_nat.simps [of n])
      from "1.IH" [OF False e] have "m div 10 = n div 10" .
      moreover from d have "m mod 10 = n mod 10" by (simp add: digit_char_inj)
      ultimately show ?thesis by (metis div_mult_mod_eq)
    qed
  qed
qed





lemma strings_ensure_ids: "strings (ensure_ids i t) = strings t"
  by (induction t) (auto intro: arg_cong [where f = concat])

lemma located_ensure_ids:
  "located_from p k (map (ensure_ids i) cs) = map (\<lambda>(q, d). (q, ensure_ids i d)) (located_from p k cs)"
  "located_at p (ensure_ids i t) = map (\<lambda>(q, d). (q, ensure_ids i d)) (located_at p t)"
  by (induction p k cs and p t rule: located_from_located_at.induct) simp_all

lemma descendants_ensure_heading_ids:
  "descendants (ensure_heading_ids i soup) = map (ensure_ids i) (descendants soup)"
  by (cases soup) (simp_all add: descendants_def located_def located_ensure_ids split_def)

lemma is_heading_ensure_ids: "is_heading (ensure_ids i d) = is_heading d"
  by (cases d) (simp_all add: is_heading_def heading_re_def)

lemma get_id_ensure_ids:
  "get_attr (ensure_ids i d) ''id'' =
     (if is_heading d \<and> lacks_id d then Some (heading_id i (get_text d)) else get_attr d ''id'')"
  by (cases d) (simp_all add: update_conv' is_heading_def heading_re_def)

lemma heading_ids_ensure:
  "map (\<lambda>h. get_attr h ''id'') (find_all is_heading (ensure_heading_ids i soup)) =
   map (\<lambda>h. if lacks_id h then Some (heading_id i (get_text h)) else get_attr h ''id'')
     (find_all is_heading soup)"
  by (simp add: find_all_def descendants_ensure_heading_ids filter_map comp_def
        is_heading_ensure_ids get_id_ensure_ids cong: map_cong)


lemma chapters_nth:
  "k < length pgs \<Longrightarrow> chapters L pgs ! k = build_chapter L (Suc k, pgs ! k)"
  by (simp add: chapters_def nth_enumerate_eq)

lemma chapter_id_build: "chapter_id (build_chapter L p) = ''chapter-'' @ str_nat (fst p)"
  by (cases p) (simp add: build_chapter_def Let_def split: prod.splits)

lemma chapter_ids:
  "map chapter_id (chapters L pgs) = map (\<lambda>i. ''chapter-'' @ str_nat i) [1..<Suc (length pgs)]"
proof -
  have "map chapter_id (chapters L pgs) =
        map (\<lambda>i. ''chapter-'' @ str_nat i) (map fst (List.enumerate 1 pgs))"
    by (simp only: chapters_def map_map comp_def chapter_id_build)
  also have "map fst (List.enumerate 1 pgs) = [1..<1 + length pgs]"
    by (rule map_fst_enumerate)
  finally show ?thesis by (simp only: plus_1_eq_Suc)
qed

lemma source_url_build: "source_url (build_chapter L p) = fst (snd p)"
  by (cases p) (simp add: build_chapter_def Let_def split: prod.splits)

lemma source_urls: "map source_url (chapters L pgs) = map fst pgs"
proof -
  have "map source_url (chapters L pgs) = map fst (map snd (List.enumerate 1 pgs))"
    by (simp only: chapters_def map_map comp_def source_url_build)
  then show ?thesis by (simp only: map_snd_enumerate)
qed

lemma chapter_ids_distinct: "distinct (map chapter_id (chapters L pgs))"
  unfolding chapter_ids by (simp add: distinct_map inj_on_def str_nat_inj)


lemma sub_unsafe_safe: "c \<in> set (sub_unsafe b t) \<Longrightarrow> safe_char c"
  by (induction t arbitrary: b) (auto simp: safe_char_def split: if_splits)



lemma chapter_soup_nth:
  "k < length pgs \<Longrightarrow>
   chapter_soup (chapters L pgs ! k) = ensure_heading_ids (Suc k) (parse_html L (snd (snd (pgs ! k))))"
  by (cases "pgs ! k") (simp add: chapters_nth build_chapter_def Let_def)











subsection \<open>The assembled document\<close>




text \<open>
  C2, as the code has it. A heading of the \<open>k+1\<close>-th page whose \<^verbatim>\<open>id\<close> is missing or empty
  gets the identifier \<^verbatim>\<open>p<k+1>-\<close> followed by the first 60 characters of its text in which
  every run of characters outside \<^verbatim>\<open>[a-zA-Z0-9_-]\<close> is replaced by one \<^verbatim>\<open>-\<close> (the case of
  the letters is kept); a heading that has an \<^verbatim>\<open>id\<close> keeps it. The slug has at most 60
  characters, all of them in \<^verbatim>\<open>[a-zA-Z0-9_-]\<close>.
\<close>

theorem synthesized_heading_ids:
  assumes "k < length pgs"
  shows "map (\<lambda>h. get_attr h ''id'') (find_all is_heading (chapter_soup (chapters L pgs ! k))) =
         map (\<lambda>h. if lacks_id h
                  then Some (''p'' @ str_nat (Suc k) @ ''-'' @ take 60 (sub_unsafe False (get_text h)))
                  else get_attr h ''id'')
           (find_all is_heading (parse_html L (snd (snd (pgs ! k)))))
         \<and> (\<forall>t. length (safe_id t) \<le> 60 \<and> (\<forall>c \<in> set (safe_id t). safe_char c))"
proof -
  have "\<forall>c \<in> set (safe_id t). safe_char c" for t
    by (auto simp: safe_id_def dest: in_set_takeD sub_unsafe_safe)
  moreover have "length (safe_id t) \<le> 60" for t by (simp add: safe_id_def)
  ultimately show ?thesis
    using assms by (simp add: chapter_soup_nth heading_ids_ensure heading_id_def safe_id_def)
qed

theorem synthesized_heading_ids_witness:
  "1 < length overview_pages
   \<and> map (\<lambda>h. get_attr h ''id'') (find_all is_heading (chapter_soup (chapters demo_lib overview_pages ! 1)))
       = [Some ''p2-Overview'']
   \<and> length (safe_id ''A  b/c'') \<le> 60"
proof -
  have n: "1 < length overview_pages" by (simp add: overview_pages_def)
  have e: "map (\<lambda>h. if lacks_id h
                  then Some (''p'' @ str_nat (Suc 1) @ ''-'' @ take 60 (sub_unsafe False (get_text h)))
                  else get_attr h ''id'')
           (find_all is_heading (parse_html demo_lib (snd (snd (overview_pages ! 1)))))
         = [Some ''p2-Overview'']" by code_simp
  from synthesized_heading_ids [OF n, of demo_lib] show ?thesis
    by (simp only: e n)
qed

text \<open>
  C2, as the claim states it, fails: two pages with the heading \<^verbatim>\<open>Overview\<close> do not get
  the identifiers \<^verbatim>\<open>page1-overview\<close> and \<^verbatim>\<open>page2-overview\<close> (they get \<^verbatim>\<open>p1-Overview\<close> and
  \<^verbatim>\<open>p2-Overview\<close>).
\<close>

theorem overview_ids_counterexample:
  "map (\<lambda>ch. map (\<lambda>h. get_attr h ''id'') (find_all is_heading (chapter_soup ch)))
     (chapters demo_lib overview_pages) \<noteq> [[Some ''page1-overview''], [Some ''page2-overview'']]"
  by code_simp

subsection \<open>The loop of the crawler\<close>

text \<open>
  What one run of the body of the loop does, case by case, and what holds each time the
  condition of the loop is evaluated.
\<close>

lemma update_new: "k \<notin> fst ` set al \<Longrightarrow> AList.update k v al = al @ [(k, v)]"
  by (induction al) auto

lemma extract_main_html_some: "\<exists>p tag. extract_main_html soup = Some (p, tag)"
  by (auto simp: extract_main_html_def split: option.splits)

lemma enqueue_links_appends:
  "enqueue_links L c url vis hrefs tv = Inr tv' \<Longrightarrow>
   \<exists>new. tv' = tv @ new \<and> distinct new \<and>
     (\<forall>u \<in> set new. u \<notin> set tv \<and> u |\<notin>| vis \<and> startswith u (scheme_and_netloc c)
        \<and> is_same_domain L (base_netloc c) u \<and> \<not> is_media_file u)"
proof (induction hrefs arbitrary: tv)
  case Nil
  then show ?case by simp
next
  case (Cons raw hrefs)
  show ?case
  proof (cases "\<exists>href. normalize_link L url raw = Inr (Some href) \<and> href \<noteq> []
      \<and> is_same_domain L (base_netloc c) href \<and> \<not> is_media_file href
      \<and> href |\<notin>| vis \<and> href \<notin> set tv \<and> startswith href (scheme_and_netloc c)")
    case True
    then obtain href where h: "normalize_link L url raw = Inr (Some href)" "href \<noteq> []"
      "is_same_domain L (base_netloc c) href" "\<not> is_media_file href"
      "href |\<notin>| vis" "href \<notin> set tv" "startswith href (scheme_and_netloc c)" by blast
    with Cons.prems have "enqueue_links L c url vis hrefs (tv @ [href]) = Inr tv'" by simp
    from Cons.IH [OF this] obtain new where n: "tv' = (tv @ [href]) @ new" "distinct new"
      "\<forall>u \<in> set new. u \<notin> set (tv @ [href]) \<and> u |\<notin>| vis \<and> startswith u (scheme_and_netloc c)
        \<and> is_same_domain L (base_netloc c) u \<and> \<not> is_media_file u" by blast
    show ?thesis
    proof (intro exI [of _ "href # new"] conjI)
      from n(1) show "tv' = tv @ href # new" by simp
      from n(2,3) show "distinct (href # new)" by auto
      from n(3) h show "\<forall>u \<in> set (href # new). u \<notin> set tv \<and> u |\<notin>| vis \<and> startswith u (scheme_and_netloc c)
        \<and> is_same_domain L (base_netloc c) u \<and> \<not> is_media_file u" by auto
    qed
  next
    case False
    with Cons.prems have "enqueue_links L c url vis hrefs tv = Inr tv'"
      by (auto split: sum.splits option.splits if_splits)
    from Cons.IH [OF this] show ?thesis .
  qed
qed

lemma crawl_iteration_skip:
  "to_visit s = url # rest \<Longrightarrow> url |\<in>| visited s \<Longrightarrow>
   crawl_iteration L c s = Inr (s\<lparr>to_visit := rest\<rparr>)"
  by (simp add: crawl_iteration_def)

lemma crawl_iteration_reject:
  "to_visit s = url # rest \<Longrightarrow> url |\<notin>| visited s \<Longrightarrow>
   \<not> is_same_domain L (base_netloc c) url \<or> prefix_rejects (allowed_path_prefix c) url \<Longrightarrow>
   crawl_iteration L c s = Inr (s\<lparr>to_visit := rest, visited := finsert url (visited s)\<rparr>)"
  by (cases "is_same_domain L (base_netloc c) url")
     (simp_all add: crawl_iteration_def mark_visited_def Let_def)

lemma crawl_iteration_failed:
  "to_visit s = url # rest \<Longrightarrow> url |\<notin>| visited s \<Longrightarrow>
   is_same_domain L (base_netloc c) url \<Longrightarrow> \<not> prefix_rejects (allowed_path_prefix c) url \<Longrightarrow>
   \<not> fetched_ok L url \<Longrightarrow>
   crawl_iteration L c s =
     Inr (s\<lparr>to_visit := rest, visited := finsert url (visited s), requests := requests s @ [url]\<rparr>)"
  by (simp add: crawl_iteration_def mark_visited_def fetched_ok_def Let_def split: response.splits)

lemma crawl_iteration_fetched:
  assumes "to_visit s = url # rest" "url |\<notin>| visited s"
    "is_same_domain L (base_netloc c) url" "\<not> prefix_rejects (allowed_path_prefix c) url"
    "session_get L url = Response 200 text"
    "extract_main_html (parse_html L text) = Some (p, tag)"
  shows "crawl_iteration L c s =
    (case enqueue_links L c url (finsert url (visited s))
            (link_hrefs (replace_at (parse_html L text) p (clean_html_fragment tag))) rest of
       Inl e \<Rightarrow> Inl e
     | Inr tv \<Rightarrow>
         Inr (s\<lparr>to_visit := tv, visited := finsert url (visited s),
               pages := AList.update url
                 (case find_first (is_tag ''title'') (parse_html L text) of
                    Some title_tag \<Rightarrow> get_text_strip title_tag | None \<Rightarrow> url,
                  to_html L (clean_html_fragment tag)) (pages s),
               requests := requests s @ [url]\<rparr>))"
  using assms by (simp add: crawl_iteration_def mark_visited_def Let_def split: sum.splits)

lemma crawl_iteration_cases [consumes 1, case_names skip reject failed fetched]:
  assumes "crawl_iteration L c s = Inr s'"
  obtains
    (skip) url rest where "to_visit s = url # rest" "url |\<in>| visited s"
      "to_visit s' = rest" "visited s' = visited s" "pages s' = pages s" "requests s' = requests s"
  | (reject) url rest where "to_visit s = url # rest" "url |\<notin>| visited s"
      "\<not> is_same_domain L (base_netloc c) url \<or> prefix_rejects (allowed_path_prefix c) url"
      "to_visit s' = rest" "visited s' = finsert url (visited s)" "pages s' = pages s"
      "requests s' = requests s"
  | (failed) url rest where "to_visit s = url # rest" "url |\<notin>| visited s"
      "is_same_domain L (base_netloc c) url" "\<not> prefix_rejects (allowed_path_prefix c) url"
      "\<not> fetched_ok L url"
      "to_visit s' = rest" "visited s' = finsert url (visited s)" "pages s' = pages s"
      "requests s' = requests s @ [url]"
  | (fetched) url rest hrefs title html where "to_visit s = url # rest" "url |\<notin>| visited s"
      "is_same_domain L (base_netloc c) url" "\<not> prefix_rejects (allowed_path_prefix c) url"
      "fetched_ok L url"
      "enqueue_links L c url (finsert url (visited s)) hrefs rest = Inr (to_visit s')"
      "visited s' = finsert url (visited s)"
      "pages s' = AList.update url (title, html) (pages s)"
      "requests s' = requests s @ [url]"
proof (cases "to_visit s")
  case Nil
  with assms show ?thesis by (simp add: crawl_iteration_def)
next
  case (Cons url rest)
  show ?thesis
  proof (cases "url |\<in>| visited s")
    case True
    from crawl_iteration_skip [OF Cons True, of L c] assms have "s' = s\<lparr>to_visit := rest\<rparr>" by simp
    with Cons True show ?thesis by (intro skip [of url rest]) simp_all
  next
    case nv: False
    show ?thesis
    proof (cases "\<not> is_same_domain L (base_netloc c) url \<or> prefix_rejects (allowed_path_prefix c) url")
      case True
      from crawl_iteration_reject [OF Cons nv True] assms
      have "s' = s\<lparr>to_visit := rest, visited := finsert url (visited s)\<rparr>" by simp
      with Cons nv True show ?thesis by (intro reject [of url rest]) simp_all
    next
      case False
      then have ok: "is_same_domain L (base_netloc c) url" "\<not> prefix_rejects (allowed_path_prefix c) url"
        by simp_all
      show ?thesis
      proof (cases "fetched_ok L url")
        case False
        from crawl_iteration_failed [OF Cons nv ok False] assms
        have "s' = s\<lparr>to_visit := rest, visited := finsert url (visited s),
                       requests := requests s @ [url]\<rparr>" by simp
        with Cons nv ok False show ?thesis by (intro failed [of url rest]) simp_all
      next
        case True
        then obtain content where r: "session_get L url = Response 200 content"
          by (auto simp: fetched_ok_def split: response.splits)
        obtain p tag where x: "extract_main_html (parse_html L content) = Some (p, tag)"
          using extract_main_html_some by blast
        from crawl_iteration_fetched [OF Cons nv ok r x] assms
        obtain tv where e: "enqueue_links L c url (finsert url (visited s))
            (link_hrefs (replace_at (parse_html L content) p (clean_html_fragment tag))) rest = Inr tv"
          and s': "s' = s\<lparr>to_visit := tv, visited := finsert url (visited s),
               pages := AList.update url
                 (case find_first (is_tag ''title'') (parse_html L content) of
                    Some title_tag \<Rightarrow> get_text_strip title_tag | None \<Rightarrow> url,
                  to_html L (clean_html_fragment tag)) (pages s),
               requests := requests s @ [url]\<rparr>"
          by (simp split: sum.splits)
        from e have e': "enqueue_links L c url (finsert url (visited s))
            (link_hrefs (replace_at (parse_html L content) p (clean_html_fragment tag))) rest
            = Inr (to_visit s')" by (simp add: s')
        show ?thesis
          by (rule fetched [OF Cons nv ok True e']) (simp_all add: s')
      qed
    qed
  qed
qed

lemma crawl_loop_reachable:
  "reachable L c start_url s \<Longrightarrow> crawl_loop L c s = Inr t \<Longrightarrow>
   reachable L c start_url t \<and> \<not> loop_cond c t"
proof (induction L c s rule: crawl_loop.induct)
  case (1 L c s)
  show ?case
  proof (cases "loop_cond c s")
    case True
    with "1.prems"(2) obtain s' where i: "crawl_iteration L c s = Inr s'"
      and l: "crawl_loop L c s' = Inr t"
      by (simp add: crawl_loop.simps [of L c s] split: sum.splits)
    from "1.prems"(1) True i have "reachable L c start_url s'" by (rule reachable.step)
    from "1.IH" [OF True i this l] show ?thesis .
  next
    case False
    with "1.prems" show ?thesis by (simp add: crawl_loop.simps [of L c s])
  qed
qed

lemma crawl_run_reachable:
  assumes "crawl_run L start_url N pre = Inr t"
  obtains scheme netloc where "urlparse L start_url = Some (scheme, netloc)"
    "reachable L \<lparr>base_netloc = netloc, scheme_and_netloc = scheme @ ''://'' @ netloc,
         max_pages = N, allowed_path_prefix = pre\<rparr> start_url t"
    "\<not> loop_cond \<lparr>base_netloc = netloc, scheme_and_netloc = scheme @ ''://'' @ netloc,
         max_pages = N, allowed_path_prefix = pre\<rparr> t"
proof -
  from assms obtain scheme netloc where u: "urlparse L start_url = Some (scheme, netloc)"
    and l: "crawl_loop L \<lparr>base_netloc = netloc, scheme_and_netloc = scheme @ ''://'' @ netloc,
         max_pages = N, allowed_path_prefix = pre\<rparr> (initial_state start_url) = Inr t"
    by (auto simp: crawl_run_def split: option.splits)
  from crawl_loop_reachable [OF reachable.init l] u that show ?thesis by blast
qed

lemma frontier_step:
  assumes "crawl_iteration L c s = Inr s'"
    and "distinct (to_visit s)" and "\<forall>u \<in> set (to_visit s). u |\<notin>| visited s"
  shows "distinct (to_visit s') \<and> (\<forall>u \<in> set (to_visit s'). u |\<notin>| visited s')"
  using assms(1)
proof (cases rule: crawl_iteration_cases)
  case (skip url rest)
  with assms(2,3) show ?thesis by auto
next
  case (reject url rest)
  with assms(2,3) show ?thesis by auto
next
  case (failed url rest)
  with assms(2,3) show ?thesis by auto
next
  case (fetched url rest hrefs title html)
  from enqueue_links_appends [OF fetched(6)] obtain new where
    n: "to_visit s' = rest @ new" "distinct new"
    "\<forall>u \<in> set new. u \<notin> set rest \<and> u |\<notin>| finsert url (visited s)" by blast
  with fetched(1,7) assms(2,3) show ?thesis by auto
qed

lemma reachable_frontier:
  "reachable L c start_url s \<Longrightarrow>
   distinct (to_visit s) \<and> (\<forall>u \<in> set (to_visit s). u |\<notin>| visited s)"
proof (induction rule: reachable.induct)
  case init
  show ?case by (simp add: initial_state_def)
next
  case (step s s')
  from frontier_step [OF step(3)] step.IH show ?case by blast
qed

lemma reachable_cap:
  "reachable L c start_url s \<Longrightarrow> int (fcard (visited s)) \<le> max 0 (max_pages c)"
proof (induction rule: reachable.induct)
  case init
  show ?case by (simp add: initial_state_def fcard_fempty)
next
  case (step s s')
  from step(2) have l: "int (fcard (visited s)) < max_pages c" by (simp add: loop_cond_def)
  from step(3) show ?case
  proof (cases rule: crawl_iteration_cases)
    case (skip url rest)
    with l show ?thesis by simp
  next
    case (reject url rest)
    with l show ?thesis by (simp add: fcard_finsert_disjoint)
  next
    case (failed url rest)
    with l show ?thesis by (simp add: fcard_finsert_disjoint)
  next
    case (fetched url rest hrefs title html)
    with l show ?thesis by (simp add: fcard_finsert_disjoint)
  qed
qed

lemma reachable_requests:
  "reachable L c start_url s \<Longrightarrow>
   set (requests s) \<subseteq> fset (visited s) \<and> distinct (requests s)
   \<and> map fst (pages s) = filter (fetched_ok L) (requests s)"
proof (induction rule: reachable.induct)
  case init
  show ?case by (simp add: initial_state_def)
next
  case (step s s')
  from step(3) show ?case
  proof (cases rule: crawl_iteration_cases)
    case (skip url rest)
    with step.IH show ?thesis by simp
  next
    case (reject url rest)
    with step.IH show ?thesis by auto
  next
    case (failed url rest)
    with step.IH show ?thesis by auto
  next
    case (fetched url rest hrefs title html)
    from step.IH fetched(2) have "url \<notin> set (requests s)" by auto
    moreover have "fst ` set (pages s) = set (map fst (pages s))" by simp
    ultimately have "url \<notin> fst ` set (pages s)" using step.IH by (simp only:) simp
    from update_new [OF this] fetched step.IH \<open>url \<notin> set (requests s)\<close> show ?thesis by auto
  qed
qed


subsection \<open>The crawl of the small site\<close>

lemma demo_step_1: "crawl_iteration demo_lib demo_ctx (initial_state demo_start) = Inr demo_state_1"
  by code_simp

lemma demo_step_2: "crawl_iteration demo_lib demo_ctx demo_state_1 = Inr demo_state_2"
  by code_simp

lemma demo_step_3: "crawl_iteration demo_lib demo_ctx demo_state_2 = Inr demo_state_3"
  by code_simp

lemma demo_conds:
  "loop_cond demo_ctx (initial_state demo_start)" "loop_cond demo_ctx demo_state_1"
  "loop_cond demo_ctx demo_state_2"
  by code_simp+

lemma demo_reachable_1: "reachable demo_lib demo_ctx demo_start demo_state_1"
  by (rule reachable.step [OF reachable.init demo_conds(1) demo_step_1])

lemma demo_reachable_2: "reachable demo_lib demo_ctx demo_start demo_state_2"
  by (rule reachable.step [OF demo_reachable_1 demo_conds(2) demo_step_2])

lemma demo_reachable_3: "reachable demo_lib demo_ctx demo_start demo_state_3"
  by (rule reachable.step [OF demo_reachable_2 demo_conds(3) demo_step_3])

lemma demo_run: "crawl_run demo_lib demo_start 10 None = Inr demo_state_3"
  by code_simp

lemma demo_run_capped: "crawl_run demo_lib demo_start 2 None = Inr demo_state_2"
  by code_simp

subsection \<open>Crawl engine\<close>

lemma pages_le_visited:
  assumes "reachable L c start_url s"
  shows "distinct (map fst (pages s))" "fst ` set (pages s) \<subseteq> fset (visited s)"
    "length (pages s) \<le> fcard (visited s)"
proof -
  from reachable_requests [OF assms] have r: "set (requests s) \<subseteq> fset (visited s)"
    "distinct (requests s)" "map fst (pages s) = filter (fetched_ok L) (requests s)" by simp_all
  from r(2,3) show d: "distinct (map fst (pages s))" by simp
  have "fst ` set (pages s) = set (map fst (pages s))" by simp
  also have "\<dots> \<subseteq> set (requests s)" unfolding r(3) by simp
  finally show k: "fst ` set (pages s) \<subseteq> fset (visited s)" using r(1) by simp
  have "length (pages s) = card (set (map fst (pages s)))"
    using distinct_card [OF d] by simp
  also have "\<dots> \<le> card (fset (visited s))" using k by (intro card_mono) simp_all
  finally show "length (pages s) \<le> fcard (visited s)" by (simp add: fcard.rep_eq)
qed

text \<open>
  C3. When \<^verbatim>\<open>crawl_docs\<close> returns, with \<^verbatim>\<open>max_pages\<close> = \<open>N\<close>, the set \<^verbatim>\<open>visited\<close> has at most
  \<open>N\<close> elements and the result has at most \<open>N\<close> records, for distinct URLs that are all in
  \<^verbatim>\<open>visited\<close>. (The bound is written \<open>max 0 N\<close>: it is \<open>N\<close> for a count \<open>N \<ge> 0\<close>; for a negative
  \<open>N\<close> the loop does not run and both numbers are 0.)
\<close>

theorem cap_enforcement:
  assumes "crawl_run L start_url N pre = Inr t"
  shows "crawl_docs L start_url N pre = Inr (pages t)
       \<and> int (fcard (visited t)) \<le> max 0 N
       \<and> int (length (pages t)) \<le> max 0 N
       \<and> distinct (map fst (pages t))
       \<and> fst ` set (pages t) \<subseteq> fset (visited t)"
proof -
  from assms obtain scheme netloc where
    r: "reachable L \<lparr>base_netloc = netloc, scheme_and_netloc = scheme @ ''://'' @ netloc,
         max_pages = N, allowed_path_prefix = pre\<rparr> start_url t"
    by (rule crawl_run_reachable)
  from reachable_cap [OF r] have v: "int (fcard (visited t)) \<le> max 0 N" by simp
  from pages_le_visited(3) [OF r] v have "int (length (pages t)) \<le> max 0 N" by linarith
  with v pages_le_visited(1,2) [OF r] assms show ?thesis by (simp add: crawl_docs_def)
qed

theorem cap_enforcement_witness:
  "crawl_run demo_lib demo_start 2 None = Inr demo_state_2
   \<and> crawl_docs demo_lib demo_start 2 None = Inr [(''https://docs.test/'', ''Home'', ''overview'')]
   \<and> fcard (visited demo_state_2) = 2
   \<and> int (fcard (visited demo_state_2)) \<le> 2
   \<and> int (length (pages demo_state_2)) \<le> 2"
proof -
  have c: "fcard (visited demo_state_2) = 2" by code_simp
  have p: "pages demo_state_2 = [(''https://docs.test/'', ''Home'', ''overview'')]"
    by (simp add: demo_state_2_def)
  from cap_enforcement [OF demo_run_capped] demo_run_capped c p show ?thesis by simp
qed

text \<open>
  C4. The frontier \<^verbatim>\<open>to_visit\<close> has no duplicates and no element of it is in \<^verbatim>\<open>visited\<close>:
  this holds of the initial state, every run of the loop body that starts in a state where
  it holds ends in such a state, and so it holds each time the loop condition is evaluated.
\<close>

theorem frontier_invariant:
  "(distinct (to_visit (initial_state start_url))
      \<and> (\<forall>u \<in> set (to_visit (initial_state start_url)). u |\<notin>| visited (initial_state start_url)))
   \<and> (distinct (to_visit s) \<and> (\<forall>u \<in> set (to_visit s). u |\<notin>| visited s)
        \<and> crawl_iteration L c s = Inr s'
      \<longrightarrow> distinct (to_visit s') \<and> (\<forall>u \<in> set (to_visit s'). u |\<notin>| visited s'))
   \<and> (reachable L c start_url r
      \<longrightarrow> distinct (to_visit r) \<and> (\<forall>u \<in> set (to_visit r). u |\<notin>| visited r))"
  using frontier_step [of L c s s'] reachable_frontier [of L c start_url r]
  by (simp add: initial_state_def)

theorem frontier_invariant_witness:
  "crawl_iteration demo_lib demo_ctx (initial_state demo_start) = Inr demo_state_1
   \<and> to_visit demo_state_1 = [''https://docs.test/b'', ''https://docs.test/c'']
   \<and> distinct (to_visit demo_state_1)
   \<and> ''https://docs.test/b'' |\<notin>| visited demo_state_1
   \<and> ''https://docs.test/c'' |\<notin>| visited demo_state_1
   \<and> distinct (to_visit demo_state_2)
   \<and> ''https://docs.test/c'' |\<notin>| visited demo_state_2"
proof -
  have i: "distinct (to_visit (initial_state demo_start))"
    "\<forall>u \<in> set (to_visit (initial_state demo_start)). u |\<notin>| visited (initial_state demo_start)"
    by (simp_all add: initial_state_def)
  have t: "to_visit demo_state_1 = [''https://docs.test/b'', ''https://docs.test/c'']"
    "to_visit demo_state_2 = [''https://docs.test/c'']"
    by (simp_all add: demo_state_1_def demo_state_2_def)
  from frontier_invariant [of demo_start "initial_state demo_start" demo_lib demo_ctx demo_state_1
      demo_state_2] i demo_step_1 demo_reachable_2
  have "distinct (to_visit demo_state_1) \<and> (\<forall>u \<in> set (to_visit demo_state_1). u |\<notin>| visited demo_state_1)"
    and "distinct (to_visit demo_state_2) \<and> (\<forall>u \<in> set (to_visit demo_state_2). u |\<notin>| visited demo_state_2)"
    by blast+
  with t demo_step_1 show ?thesis by simp
qed

text \<open>
  C7. A URL whose fetch raises or answers with a status other than 200: the run of the loop
  body returns normally, with the URL added to \<^verbatim>\<open>visited\<close>, the result unchanged and the rest
  of the frontier left to process, and the loop goes on from that state. No URL is requested
  twice, no requested URL is still in the frontier, and no URL whose fetch fails is a key
  of the result.
\<close>

theorem fetch_failure_recovered:
  "(to_visit s = url # rest \<and> url |\<notin>| visited s \<and> is_same_domain L (base_netloc c) url
      \<and> \<not> prefix_rejects (allowed_path_prefix c) url
      \<and> (session_get L url = RequestFailed
           \<or> (\<exists>status_code content. session_get L url = Response status_code content \<and> status_code \<noteq> 200))
     \<longrightarrow> crawl_iteration L c s =
           Inr (s\<lparr>to_visit := rest, visited := finsert url (visited s), requests := requests s @ [url]\<rparr>)
         \<and> (loop_cond c s \<longrightarrow>
              crawl_loop L c s =
              crawl_loop L c (s\<lparr>to_visit := rest, visited := finsert url (visited s),
                                 requests := requests s @ [url]\<rparr>)))
   \<and> (reachable L c start_url r \<longrightarrow>
         distinct (requests r) \<and> set (requests r) \<subseteq> fset (visited r)
         \<and> (\<forall>u \<in> set (to_visit r). u \<notin> set (requests r))
         \<and> (\<forall>u. \<not> fetched_ok L u \<longrightarrow> u \<notin> fst ` set (pages r)))
   \<and> (crawl_docs L start_url N pre = Inr result \<longrightarrow>
         (\<forall>u. \<not> fetched_ok L u \<longrightarrow> u \<notin> fst ` set result))"
proof -
  have a: "crawl_iteration L c s =
           Inr (s\<lparr>to_visit := rest, visited := finsert url (visited s), requests := requests s @ [url]\<rparr>)
         \<and> (loop_cond c s \<longrightarrow>
              crawl_loop L c s =
              crawl_loop L c (s\<lparr>to_visit := rest, visited := finsert url (visited s),
                                 requests := requests s @ [url]\<rparr>))"
    if h: "to_visit s = url # rest" "url |\<notin>| visited s" "is_same_domain L (base_netloc c) url"
      "\<not> prefix_rejects (allowed_path_prefix c) url"
      "session_get L url = RequestFailed
           \<or> (\<exists>status_code content. session_get L url = Response status_code content \<and> status_code \<noteq> 200)"
  proof -
    from h(5) have f: "\<not> fetched_ok L url" by (auto simp: fetched_ok_def)
    note i = crawl_iteration_failed [OF h(1-4) f]
    show ?thesis by (simp add: i crawl_loop.simps [of L c s])
  qed
  have b: "distinct (requests r) \<and> set (requests r) \<subseteq> fset (visited r)
         \<and> (\<forall>u \<in> set (to_visit r). u \<notin> set (requests r))
         \<and> (\<forall>u. \<not> fetched_ok L u \<longrightarrow> u \<notin> fst ` set (pages r))"
    if r: "reachable L c start_url r" for c r
  proof -
    from reachable_requests [OF r] have q: "set (requests r) \<subseteq> fset (visited r)"
      "distinct (requests r)" "map fst (pages r) = filter (fetched_ok L) (requests r)" by simp_all
    have "fst ` set (pages r) = set (filter (fetched_ok L) (requests r))"
      using q(3) by (metis list.set_map)
    then have "\<forall>u. \<not> fetched_ok L u \<longrightarrow> u \<notin> fst ` set (pages r)" by simp
    moreover from reachable_frontier [OF r] q(1)
    have "\<forall>u \<in> set (to_visit r). u \<notin> set (requests r)" by auto
    ultimately show ?thesis using q by simp
  qed
  have d: "\<forall>u. \<not> fetched_ok L u \<longrightarrow> u \<notin> fst ` set result"
    if "crawl_docs L start_url N pre = Inr result"
  proof -
    from that obtain t where t: "crawl_run L start_url N pre = Inr t" and e: "result = pages t"
      by (cases "crawl_run L start_url N pre") (auto simp: crawl_docs_def)
    from t obtain scheme netloc where
      "reachable L \<lparr>base_netloc = netloc, scheme_and_netloc = scheme @ ''://'' @ netloc,
         max_pages = N, allowed_path_prefix = pre\<rparr> start_url t"
      by (rule crawl_run_reachable)
    from b [OF this] e show ?thesis by simp
  qed
  from a b [of c r] d show ?thesis by blast
qed

theorem fetch_failure_recovered_witness:
  "session_get demo_lib ''https://docs.test/b'' = Response 404 []
   \<and> crawl_iteration demo_lib demo_ctx demo_state_1 = Inr demo_state_2
   \<and> pages demo_state_2 = pages demo_state_1
   \<and> ''https://docs.test/b'' |\<in>| visited demo_state_2
   \<and> crawl_loop demo_lib demo_ctx demo_state_1 = crawl_loop demo_lib demo_ctx demo_state_2
   \<and> distinct (requests demo_state_3)
   \<and> ''https://docs.test/b'' \<in> set (requests demo_state_3)
   \<and> ''https://docs.test/b'' \<notin> fst ` set (pages demo_state_3)
   \<and> crawl_docs demo_lib demo_start 10 None = Inr (pages demo_state_3)"
proof -
  have g: "session_get demo_lib ''https://docs.test/b'' = Response 404 []" by code_simp
  have h: "to_visit demo_state_1 = ''https://docs.test/b'' # [''https://docs.test/c'']"
    "''https://docs.test/b'' |\<notin>| visited demo_state_1"
    "is_same_domain demo_lib (base_netloc demo_ctx) ''https://docs.test/b''"
    "\<not> prefix_rejects (allowed_path_prefix demo_ctx) ''https://docs.test/b''"
    "loop_cond demo_ctx demo_state_1"
    "\<not> fetched_ok demo_lib ''https://docs.test/b''"
    by code_simp+
  have e: "demo_state_1\<lparr>to_visit := [''https://docs.test/c''],
             visited := finsert ''https://docs.test/b'' (visited demo_state_1),
             requests := requests demo_state_1 @ [''https://docs.test/b'']\<rparr> = demo_state_2"
    by code_simp
  have d: "crawl_docs demo_lib demo_start 10 None = Inr (pages demo_state_3)"
    by (simp add: crawl_docs_def demo_run)
  have m: "''https://docs.test/b'' \<in> set (requests demo_state_3)"
    "''https://docs.test/b'' |\<in>| visited demo_state_2" "pages demo_state_2 = pages demo_state_1"
    by code_simp+
  note t = fetch_failure_recovered [of demo_state_1 "''https://docs.test/b''" "[''https://docs.test/c'']"
      demo_lib demo_ctx demo_start demo_state_3 10 None "pages demo_state_3"]
  from g have g': "session_get demo_lib ''https://docs.test/b'' = RequestFailed
      \<or> (\<exists>status_code content. session_get demo_lib ''https://docs.test/b'' = Response status_code content
            \<and> status_code \<noteq> 200)" by simp
  from t g' h have 1: "crawl_iteration demo_lib demo_ctx demo_state_1 = Inr demo_state_2"
    "crawl_loop demo_lib demo_ctx demo_state_1 = crawl_loop demo_lib demo_ctx demo_state_2"
    unfolding e by blast+
  from t demo_reachable_3 have 2: "distinct (requests demo_state_3)" by blast
  from t d h(6) have 3: "''https://docs.test/b'' \<notin> fst ` set (pages demo_state_3)" by blast
  from g 1 2 3 d m show ?thesis by simp
qed

lemma located_subtree:
  "(q, d) \<in> set (located_from p k cs) \<Longrightarrow>
     \<exists>i r. i < length cs \<and> q = p @ (k + i) # r \<and> subtree (cs ! i) r = Some d"
  "(q, d) \<in> set (located_at p t) \<Longrightarrow> \<exists>r. q = p @ r \<and> subtree t r = Some d"
proof (induction p k cs and p t arbitrary: q d and q d rule: located_from_located_at.induct)
  case (1 p k)
  then show ?case by simp
next
  case (2 p k c cs)
  from "2.prems" consider "(q, d) = (p @ [k], c)" | "(q, d) \<in> set (located_at (p @ [k]) c)"
    | "(q, d) \<in> set (located_from p (Suc k) cs)" by auto
  then show ?case
  proof cases
    case 1
    then show ?thesis by (intro exI [of _ 0] exI [of _ "[]"]) simp
  next
    case 2
    from "2.IH"(1) [OF this] obtain r where "q = (p @ [k]) @ r" "subtree c r = Some d" by blast
    then show ?thesis by (intro exI [of _ 0] exI [of _ r]) simp
  next
    case 3
    from "2.IH"(2) [OF this] obtain i r where "i < length cs" "q = p @ (Suc k + i) # r"
      "subtree (cs ! i) r = Some d" by blast
    then show ?thesis by (intro exI [of _ "Suc i"] exI [of _ r]) simp
  qed
next
  case (3 p s)
  then show ?case by simp
next
  case (4 p n a cs)
  from "4.prems" have "(q, d) \<in> set (located_from p 0 cs)" by simp
  from "4.IH" [OF this] obtain i r where "i < length cs" "q = p @ (0 + i) # r"
    "subtree (cs ! i) r = Some d" by blast
  then show ?case by (intro exI [of _ "i # r"]) simp
qed

lemma select_one_subtree: "select_one P soup = Some (p, d) \<Longrightarrow> subtree soup p = Some d"
proof -
  assume "select_one P soup = Some (p, d)"
  then have "(p, d) \<in> set (located_at [] soup)"
    by (auto simp: select_one_def located_def find_Some_iff in_set_conv_nth)
  from located_subtree(2) [OF this] show ?thesis by simp
qed

lemma try_selectors_subtree:
  "try_selectors sels soup = Some (p, d) \<Longrightarrow> subtree soup p = Some d"
  by (induction sels) (auto split: option.splits if_splits dest: select_one_subtree)

lemma extract_main_html_subtree:
  "extract_main_html soup = Some (p, d) \<Longrightarrow> subtree soup p = Some d"
  by (auto simp: extract_main_html_def split: option.splits
        dest: select_one_subtree try_selectors_subtree)

text \<open>
  C9. \<^verbatim>\<open>extract_main_html\<close> returns an element of the document for every parsed document:
  the first selector match that has text, else the \<^verbatim>\<open>body\<close>, else the document itself. So a run of the
  loop body that gets a 200 response and does not raise records the URL in \<^verbatim>\<open>pages\<close>, and
  every URL that was requested and answered with 200 is a key of the result.
\<close>

theorem extraction_never_fails:
  "extract_main_html soup \<noteq> None
   \<and> (\<forall>p tag. extract_main_html soup = Some (p, tag) \<longrightarrow> subtree soup p = Some tag)
   \<and> (try_selectors selectors soup = None \<longrightarrow>
        extract_main_html soup =
          (case select_one (is_tag ''body'') soup of Some r \<Rightarrow> Some r | None \<Rightarrow> Some ([], soup)))
   \<and> (to_visit s = url # rest \<and> url |\<notin>| visited s \<and> is_same_domain L (base_netloc c) url
        \<and> \<not> prefix_rejects (allowed_path_prefix c) url
        \<and> session_get L url = Response 200 content \<and> crawl_iteration L c s = Inr s'
      \<longrightarrow> url \<in> fst ` set (pages s') \<and> url |\<in>| visited s'
          \<and> (\<exists>p tag. extract_main_html (parse_html L content) = Some (p, tag)
                \<and> map_of (pages s') url =
                    Some (case find_first (is_tag ''title'') (parse_html L content) of
                            Some title_tag \<Rightarrow> get_text_strip title_tag | None \<Rightarrow> url,
                          to_html L (clean_html_fragment tag))))
   \<and> (reachable L c start_url r \<longrightarrow>
        (\<forall>u \<in> set (requests r). fetched_ok L u \<longrightarrow> u \<in> fst ` set (pages r)))
   \<and> (crawl_run L start_url N pre = Inr t \<longrightarrow>
        crawl_docs L start_url N pre = Inr (pages t)
        \<and> (\<forall>u \<in> set (requests t). fetched_ok L u \<longrightarrow> u \<in> fst ` set (pages t)))"
proof -
  have a: "extract_main_html soup \<noteq> None"
    using extract_main_html_some [of soup] by auto
  have a': "\<forall>p tag. extract_main_html soup = Some (p, tag) \<longrightarrow> subtree soup p = Some tag"
    by (simp add: extract_main_html_subtree)
  have b: "try_selectors selectors soup = None \<longrightarrow>
        extract_main_html soup =
          (case select_one (is_tag ''body'') soup of Some r \<Rightarrow> Some r | None \<Rightarrow> Some ([], soup))"
    by (simp add: extract_main_html_def)
  have d: "url \<in> fst ` set (pages s') \<and> url |\<in>| visited s'
          \<and> (\<exists>p tag. extract_main_html (parse_html L content) = Some (p, tag)
                \<and> map_of (pages s') url =
                    Some (case find_first (is_tag ''title'') (parse_html L content) of
                            Some title_tag \<Rightarrow> get_text_strip title_tag | None \<Rightarrow> url,
                          to_html L (clean_html_fragment tag)))"
    if h: "to_visit s = url # rest" "url |\<notin>| visited s" "is_same_domain L (base_netloc c) url"
      "\<not> prefix_rejects (allowed_path_prefix c) url"
      "session_get L url = Response 200 content" "crawl_iteration L c s = Inr s'"
  proof -
    obtain p tag where x: "extract_main_html (parse_html L content) = Some (p, tag)"
      using extract_main_html_some by blast
    from crawl_iteration_fetched [OF h(1-5) x] h(6)
    have v: "visited s' = finsert url (visited s)"
      and g: "pages s' = AList.update url
                 (case find_first (is_tag ''title'') (parse_html L content) of
                    Some title_tag \<Rightarrow> get_text_strip title_tag | None \<Rightarrow> url,
                  to_html L (clean_html_fragment tag)) (pages s)"
      by (auto split: sum.splits)
    from g have "map_of (pages s') url =
                    Some (case find_first (is_tag ''title'') (parse_html L content) of
                            Some title_tag \<Rightarrow> get_text_strip title_tag | None \<Rightarrow> url,
                          to_html L (clean_html_fragment tag))"
      by (simp add: update_conv')
    moreover from this have "url \<in> fst ` set (pages s')"
      by (metis map_of_eq_None_iff option.distinct(1))
    ultimately show ?thesis using v x by simp
  qed
  have e: "\<forall>u \<in> set (requests r). fetched_ok L u \<longrightarrow> u \<in> fst ` set (pages r)"
    if r: "reachable L c start_url r" for c r
  proof -
    from reachable_requests [OF r] have "map fst (pages r) = filter (fetched_ok L) (requests r)"
      by simp
    then have "fst ` set (pages r) = set (filter (fetched_ok L) (requests r))"
      by (metis list.set_map)
    then show ?thesis by simp
  qed
  have f: "crawl_docs L start_url N pre = Inr (pages t)
        \<and> (\<forall>u \<in> set (requests t). fetched_ok L u \<longrightarrow> u \<in> fst ` set (pages t))"
    if t: "crawl_run L start_url N pre = Inr t"
  proof -
    from t obtain scheme netloc where
      "reachable L \<lparr>base_netloc = netloc, scheme_and_netloc = scheme @ ''://'' @ netloc,
         max_pages = N, allowed_path_prefix = pre\<rparr> start_url t"
      by (rule crawl_run_reachable)
    from e [OF this] t show ?thesis by (simp add: crawl_docs_def)
  qed
  from a a' b d e [of c r] f show ?thesis by blast
qed

theorem extraction_never_fails_witness:
  "extract_main_html soup_c = Some ([], soup_c)
   \<and> session_get demo_lib ''https://docs.test/c'' = Response 200 ''page c''
   \<and> crawl_iteration demo_lib demo_ctx demo_state_2 = Inr demo_state_3
   \<and> map_of (pages demo_state_3) ''https://docs.test/c'' = Some (''https://docs.test/c'', ''page c'')
   \<and> crawl_docs demo_lib demo_start 10 None = Inr (pages demo_state_3)
   \<and> ''https://docs.test/c'' \<in> fst ` set (pages demo_state_3)"
proof -
  have g: "session_get demo_lib ''https://docs.test/c'' = Response 200 ''page c''" by code_simp
  have h: "to_visit demo_state_2 = ''https://docs.test/c'' # []"
    "''https://docs.test/c'' |\<notin>| visited demo_state_2"
    "is_same_domain demo_lib (base_netloc demo_ctx) ''https://docs.test/c''"
    "\<not> prefix_rejects (allowed_path_prefix demo_ctx) ''https://docs.test/c''"
    "fetched_ok demo_lib ''https://docs.test/c''"
    "''https://docs.test/c'' \<in> set (requests demo_state_3)"
    "''https://docs.test/c'' \<notin> fst ` set (pages demo_state_2)"
    "try_selectors selectors soup_c = None"
    "select_one (is_tag ''body'') soup_c = None"
    by code_simp+
  note t = extraction_never_fails [of soup_c demo_state_2 "''https://docs.test/c''" "[]" demo_lib
      demo_ctx "''page c''" demo_state_3 demo_start demo_state_3 10 None demo_state_3]
  from t h(8,9) have 1: "extract_main_html soup_c = Some ([], soup_c)" by simp
  from t g h(1-4) demo_step_3
  have "\<exists>p tag. extract_main_html (parse_html demo_lib ''page c'') = Some (p, tag)
          \<and> map_of (pages demo_state_3) ''https://docs.test/c'' =
              Some (case find_first (is_tag ''title'') (parse_html demo_lib ''page c'') of
                      Some title_tag \<Rightarrow> get_text_strip title_tag | None \<Rightarrow> ''https://docs.test/c'',
                    to_html demo_lib (clean_html_fragment tag))"
    by blast
  moreover have "parse_html demo_lib ''page c'' = soup_c" by code_simp
  moreover have "find_first (is_tag ''title'') soup_c = None" by code_simp
  moreover have "to_html demo_lib (clean_html_fragment soup_c) = ''page c''" by code_simp
  ultimately
  have 2: "map_of (pages demo_state_3) ''https://docs.test/c'' = Some (''https://docs.test/c'', ''page c'')"
    using 1 by auto
  from t demo_run h(5,6) have 3: "crawl_docs demo_lib demo_start 10 None = Inr (pages demo_state_3)"
    "''https://docs.test/c'' \<in> fst ` set (pages demo_state_3)" by blast+
  from 1 2 3 g demo_step_3 show ?thesis by simp
qed



subsection \<open>Order of the chapters\<close>






subsection \<open>Link normalizer\<close>




subsection \<open>Heading identifiers across the document\<close>






end
